theory Spec2Isabelle
  imports Main
begin

section \<open>Values shared by the tools\<close>

text \<open>
  A rejected promise (a \<open>throw\<close> inside an \<open>async\<close> function) is the left injection of
  a sum; \<open>Error msg\<close> is \<open>new Error(msg)\<close>, \<open>TypeError\<close> is what destructuring
  \<open>undefined\<close> raises.
\<close>

datatype js_error = Error string | TypeError

subsection \<open>Numbers\<close>

text \<open>
  A JavaScript number is an IEEE 754 double. The model covers the doubles that are
  integers, as values of type \<open>int\<close>: sequence numbers, amounts and stream values.
  Fractions, \<open>NaN\<close> and the infinities (which a sum reaches from 2^1024 on) are outside
  it. The double nearest to an integer keeps the 53 leading bits and rounds the rest,
  ties to the even significand.
\<close>

function bitLength :: "int \<Rightarrow> nat" where
  "bitLength n = (if n \<le> 0 then 0 else Suc (bitLength (n div 2)))"
  by pat_completeness auto
termination
  by (relation "measure nat") auto

declare bitLength.simps [simp del]

definition roundToDouble :: "int \<Rightarrow> int" where
  "roundToDouble x =
     (let a = \<bar>x\<bar>;
          ulp = 2 ^ (bitLength a - 53);
          q = a div ulp;
          r = a mod ulp;
          m = (if 2 * r < ulp then q
               else if ulp < 2 * r then q + 1
               else if even q then q else q + 1)
      in sgn x * (m * ulp))"

text \<open>The \<open>+\<close> of two numbers: the exact sum, rounded to the nearest double.\<close>

definition js_add :: "int \<Rightarrow> int \<Rightarrow> int" where
  "js_add x y = roundToDouble (x + y)"

text \<open>
  The string a template literal gives a number (\<open>Number::toString\<close>): the decimal with
  the fewest significant digits that still denotes this double, the closest one if
  there are several, written out in full below 10^21 and in exponent form from there.
\<close>

definition digit_char :: "int \<Rightarrow> char" where
  "digit_char d = ''0123456789'' ! nat d"

function digits :: "int \<Rightarrow> string" where
  "digits n = (if n < 10 then [digit_char n] else digits (n div 10) @ [digit_char (n mod 10)])"
  by pat_completeness auto
termination
  by (relation "measure nat") auto

declare digits.simps [simp del]

function stripZeros :: "int \<Rightarrow> int" where
  "stripZeros v = (if v \<le> 0 \<or> v mod 10 \<noteq> 0 then v else stripZeros (v div 10))"
  by pat_completeness auto
termination
  by (relation "measure nat") auto

declare stripZeros.simps [simp del]

text \<open>
  The multiples of \<open>p\<close> on either side of \<open>x\<close> that denote the double \<open>x\<close>, the closer
  one first (on a tie the one with the even digit string).
\<close>

definition candidates :: "int \<Rightarrow> int \<Rightarrow> int list" where
  "candidates x p =
     (let f = x div p;
          lower = f * p;
          upper = (f + 1) * p;
          byDistance = (if x - lower < upper - x then [lower, upper]
                        else if upper - x < x - lower then [upper, lower]
                        else if even f then [lower, upper] else [upper, lower])
      in filter (\<lambda>v. roundToDouble v = x) byDistance)"

text \<open>The search for the shortest decimal of an \<open>n\<close>-digit \<open>x\<close>, over the digit counts \<open>k\<close>.\<close>

fun shortest :: "int \<Rightarrow> nat \<Rightarrow> nat list \<Rightarrow> int" where
  "shortest x n [] = x"
| "shortest x n (k # ks) =
     (case candidates x (10 ^ (n - k)) of
        v # _ \<Rightarrow> v
      | [] \<Rightarrow> shortest x n ks)"

definition render :: "int \<Rightarrow> string" where
  "render x =
     (let v = shortest x (length (digits x)) [1..<18];
          n = length (digits v)
      in if n \<le> 21 then digits v
         else
           let s = digits (stripZeros v)
           in (if length s = 1 then s else hd s # CHR ''.'' # tl s)
              @ ''e+'' @ digits (int n - 1))"

definition toString :: "int \<Rightarrow> string" where
  "toString x = (if x < 0 then CHR ''-'' # render (- x) else render x)"

subsection \<open>src/types: Frame\<close>

datatype FrameType = full | diff | error

record Frame =
  sequence :: int
  content :: string
  type :: FrameType
  baseSequence :: "int option"

subsection \<open>src/compiler/types: ToolDefinition\<close>

text \<open>
  \<open>execute: (input: any) => Promise<any>\<close> reads and writes module-level variables. The
  model passes that state in and returns it; the input is optional because \<open>parallel\<close>
  may pass \<open>undefined\<close>. The optional fields \<open>output\<close> and \<open>reason\<close> are set by no tool
  here and are left out. None of the tools of this repository awaits anything, so the
  body of \<open>execute\<close> runs to its end when it is called and the promise it returns is
  already settled.
\<close>

datatype ToolType = query | mutation

record ('i, 's, 'r) ToolDefinition =
  name :: string
  type :: ToolType
  description :: string
  input :: "(string \<times> string) list"
  execute :: "'i option \<Rightarrow> 's \<Rightarrow> 's \<times> (js_error + 'r)"

text \<open>
  An input object: \<open>basedOnSequence\<close> is \<open>None\<close> when the property is absent
  (\<open>undefined\<close>); the other properties are the extension of the record.
\<close>

record Input =
  basedOnSequence :: "int option"

record IncrementInput = Input +
  amount :: int

section \<open>src/tools/int-stream.ts\<close>

record IntStreamState =
  currentValue :: int
  currentSequence :: int

definition initialState :: IntStreamState where
  "initialState = \<lparr>currentValue = 0, currentSequence = 1\<rparr>"

record IntFrame = Frame +
  "value" :: int

definition getCurrentValue_execute ::
  "'p Input_scheme option \<Rightarrow> IntStreamState \<Rightarrow> IntStreamState \<times> (js_error + IntFrame)" where
  "getCurrentValue_execute inp st =
     (case inp of
        None \<Rightarrow> (st, Inl TypeError)
      | Some i \<Rightarrow>
          if basedOnSequence i \<noteq> Some (currentSequence st)
          then (st, Inl (Error ''Invalid sequence number''))
          else (st, Inr \<lparr>sequence = currentSequence st,
                         content = ''Value is '' @ toString (currentValue st),
                         type = full,
                         baseSequence = None,
                         value = currentValue st\<rparr>))"

definition getCurrentValue :: "('p Input_scheme, IntStreamState, IntFrame) ToolDefinition" where
  "getCurrentValue =
     \<lparr>name = ''get_current_value'',
      type = query,
      description = ''Get current value of the integer stream'',
      input = [(''basedOnSequence'', ''number'')],
      execute = getCurrentValue_execute\<rparr>"

definition incrementValue_execute ::
  "'p IncrementInput_scheme option \<Rightarrow> IntStreamState \<Rightarrow> IntStreamState \<times> (js_error + IntFrame)" where
  "incrementValue_execute inp st =
     (case inp of
        None \<Rightarrow> (st, Inl TypeError)
      | Some i \<Rightarrow>
          if basedOnSequence i \<noteq> Some (currentSequence st)
          then (st, Inl (Error ''Invalid sequence number''))
          else
            let st1 = st\<lparr>currentValue := js_add (currentValue st) (amount i)\<rparr>;
                st2 = st1\<lparr>currentSequence := js_add (currentSequence st1) 1\<rparr>
            in (st2, Inr \<lparr>sequence = currentSequence st2,
                           content = ''Value is now '' @ toString (currentValue st2),
                           type = full,
                           baseSequence = None,
                           value = currentValue st2\<rparr>))"

definition incrementValue :: "('p IncrementInput_scheme, IntStreamState, IntFrame) ToolDefinition" where
  "incrementValue =
     \<lparr>name = ''increment_value'',
      type = mutation,
      description = ''Increment the integer stream by a specified amount'',
      input = [(''amount'', ''number''), (''basedOnSequence'', ''number'')],
      execute = incrementValue_execute\<rparr>"

section \<open>src/compiler/parallel.ts\<close>

text \<open>
  \<open>inputs[i]\<close> is \<open>undefined\<close> past the end of the array, and so is \<open>sequences[0]\<close>
  of an empty array.
\<close>

definition input_at :: "'a list \<Rightarrow> nat \<Rightarrow> 'a option" where
  "input_at xs i = (if i < length xs then Some (xs ! i) else None)"

definition first_sequence :: "int option list \<Rightarrow> int option" where
  "first_sequence sequences = (case sequences of [] \<Rightarrow> None | s # _ \<Rightarrow> s)"

text \<open>
  \<open>tools.map((tool, i) => tool.execute(inputs[i]))\<close> calls the tools from left to right,
  each on the state the one before it left, and collects their promises.
\<close>

fun map_execute ::
  "('i, 's, 'r) ToolDefinition list \<Rightarrow> 'i list \<Rightarrow> nat \<Rightarrow> 's \<Rightarrow> 's \<times> (js_error + 'r) list" where
  "map_execute [] inputs i st = (st, [])"
| "map_execute (tool # tools) inputs i st =
     (let (st1, p) = execute tool (input_at inputs i) st;
          (st2, ps) = map_execute tools inputs (Suc i) st1
      in (st2, p # ps))"

text \<open>
  \<open>Promise.all\<close> over settled promises: the values in order, or the rejection of the
  first promise that is rejected.
\<close>

fun Promise_all :: "(js_error + 'r) list \<Rightarrow> js_error + 'r list" where
  "Promise_all [] = Inr []"
| "Promise_all (Inl e # ps) = Inl e"
| "Promise_all (Inr v # ps) = (case Promise_all ps of Inl e \<Rightarrow> Inl e | Inr vs \<Rightarrow> Inr (v # vs))"

definition parallel ::
  "('p Input_scheme, 's, 'r) ToolDefinition list \<Rightarrow> 'p Input_scheme list \<Rightarrow> 's
     \<Rightarrow> 's \<times> (js_error + 'r list)" where
  "parallel tools inputs st =
     (if \<not> list_all (\<lambda>t. ToolDefinition.type t = query) tools
      then (st, Inl (Error ''parallel() can only be used with query tools''))
      else
        let sequences = map basedOnSequence inputs in
        if \<not> list_all (\<lambda>s. s = first_sequence sequences) sequences
        then (st, Inl (Error ''All parallel tools must use the same sequence number''))
        else
          let (st', ps) = map_execute tools inputs 0 st
          in (st', Promise_all ps))"

section \<open>src/tools/mock-dom.ts and src/tools/web.ts\<close>

definition mockPage :: Frame where
  "mockPage = \<lparr>sequence = 1,
               content = ''<div><button>Click me</button><a href=\"#\">Link</a></div>'',
               type = full,
               baseSequence = None\<rparr>"

datatype ElementType = button | link

record Element =
  selector :: string
  "text" :: string
  type :: ElementType
  enabled :: bool

text \<open>The objects \<open>{ elements: [] }\<close> and \<open>{ clicked: true }\<close> the two tools resolve to.\<close>

datatype WebResult = Elements "Element list" | Clicked bool

definition getClickableElements :: "('i, 's, WebResult) ToolDefinition" where
  "getClickableElements =
     \<lparr>name = ''getClickableElements'',
      type = query,
      description = ''Get all clickable elements on the page'',
      input = [],
      execute = (\<lambda>_ st. (st, Inr (Elements [])))\<rparr>"

definition clickElement :: "('i, 's, WebResult) ToolDefinition" where
  "clickElement =
     \<lparr>name = ''clickElement'',
      type = mutation,
      description = ''Click an element on the page'',
      input = [(''selector'', ''string'')],
      execute = (\<lambda>input st. (st, Inr (Clicked True)))\<rparr>"

section \<open>docs/STREAMING.md: StreamController\<close>

datatype StreamState = initial | streaming | paused | cancelled | error | complete

fun stateName :: "StreamState \<Rightarrow> string" where
  "stateName initial = ''initial''"
| "stateName streaming = ''streaming''"
| "stateName paused = ''paused''"
| "stateName cancelled = ''cancelled''"
| "stateName StreamState.error = ''error''"
| "stateName complete = ''complete''"

fun validTransitions :: "StreamState \<Rightarrow> StreamState list" where
  "validTransitions initial = [streaming, StreamState.error]"
| "validTransitions streaming = [paused, complete, StreamState.error, cancelled]"
| "validTransitions paused = [streaming, cancelled, StreamState.error]"
| "validTransitions cancelled = []"
| "validTransitions StreamState.error = []"
| "validTransitions complete = []"

definition isValidTransition :: "StreamState \<Rightarrow> StreamState \<Rightarrow> bool" where
  "isValidTransition from to = List.member (validTransitions from) to"

text \<open>
  The controller's state, and the \<open>stateChange\<close> events it has emitted, oldest first.
\<close>

record StreamController =
  state :: StreamState
  emitted :: "(string \<times> StreamState) list"

definition transition :: "StreamState \<Rightarrow> StreamController \<Rightarrow> js_error + StreamController" where
  "transition newState c =
     (if \<not> isValidTransition (state c) newState
      then Inl (Error (''Invalid state transition: '' @ stateName (state c)
                        @ '' -> '' @ stateName newState))
      else
        let c1 = c\<lparr>state := newState\<rparr>
        in Inr (c1\<lparr>emitted := emitted c1 @ [(''stateChange'', state c1)]\<rparr>))"

text \<open>
  A transition is accepted when \<open>transition\<close> returns, leaving the controller in the new
  state. The table of the specification is written out as a set of pairs.
\<close>

definition accepted :: "StreamState \<Rightarrow> StreamState \<Rightarrow> bool" where
  "accepted from to =
     (case transition to \<lparr>state = from, emitted = []\<rparr> of
        Inl _ \<Rightarrow> False
      | Inr c \<Rightarrow> state c = to)"

definition allowed_transitions :: "(StreamState \<times> StreamState) set" where
  "allowed_transitions =
     {(initial, streaming), (initial, StreamState.error),
      (streaming, paused), (streaming, complete), (streaming, StreamState.error),
      (streaming, cancelled),
      (paused, streaming), (paused, cancelled), (paused, StreamState.error)}"

section \<open>The frame protocol document: frames with base-frame references\<close>

text \<open>
  The \<open>Frame\<close> interface of the protocol document, named \<open>ProtocolFrame\<close> here to keep
  it apart from the \<open>Frame\<close> of src/types. Its \<open>changes\<close> are a tagged variant: a full
  page with its content, a diff with selector, content and \<open>baseFrame\<close>, or an error
  with code, message and the content of the current page.
\<close>

datatype ErrorCode = sequence_invalid | element_not_found | network_error

datatype Changes =
    full_page string
  | diff string string int
  | error ErrorCode string string

record ProtocolFrame =
  sequence :: int
  url :: string
  changes :: Changes

fun isFullPage :: "Changes \<Rightarrow> bool" where
  "isFullPage (full_page c) = True"
| "isFullPage (Changes.diff sel c b) = False"
| "isFullPage (Changes.error code msg c) = False"

text \<open>The document's extended example of base frame references.\<close>

definition exampleSequence :: "ProtocolFrame list" where
  "exampleSequence =
     [\<lparr>sequence = 1, url = ''/search'', changes = full_page ''<search page>''\<rparr>,
      \<lparr>sequence = 2, url = ''/products'', changes = full_page ''<product page>''\<rparr>,
      \<lparr>sequence = 3, url = ''/products'',
        changes = Changes.diff ''#menu-1'' ''<expanded menu>'' 2\<rparr>,
      \<lparr>sequence = 4, url = ''/products'',
        changes = Changes.diff ''#reviews'' ''<new review>'' 2\<rparr>,
      \<lparr>sequence = 5, url = ''/cart'', changes = full_page ''<cart page>''\<rparr>]"

subsection \<open>Frame Store\<close>

text \<open>
  Modelled from the spec: the Frame Store (section 4.1), of which the repository has
  only the frame declarations and the documented rule. It owns the head sequence and
  the append-only history, oldest frame first.
\<close>

record FrameStore =
  headSequence :: int
  history :: "ProtocolFrame list"

definition emptyStore :: "int \<Rightarrow> FrameStore" where
  "emptyStore h = \<lparr>headSequence = h, history = []\<rparr>"

text \<open>
  Modelled from the spec: \<open>isCurrent(sequence)\<close>, true iff the sequence equals the
  store's current head sequence.
\<close>

definition isCurrent :: "int \<Rightarrow> FrameStore \<Rightarrow> bool" where
  "isCurrent s store \<longleftrightarrow> s = headSequence store"

text \<open>
  Modelled from the spec: \<open>latestFullFrame(scopeKey)\<close>, the most recent \<open>full_page\<close>
  frame for a scope key, or not-found.
\<close>

definition latestFullFrame :: "string \<Rightarrow> FrameStore \<Rightarrow> ProtocolFrame option" where
  "latestFullFrame scopeKey store =
     List.find (\<lambda>f. url f = scopeKey \<and> isFullPage (changes f)) (rev (history store))"

datatype StoreError = STALE_SEQUENCE

text \<open>
  Modelled from the spec: \<open>append(scopeKey, changes)\<close> assigns the next sequence
  number, constructs the frame, appends it to the history and returns it; it fails with
  \<open>STALE_SEQUENCE\<close>, changing nothing, when the caller's \<open>basedOnSequence\<close> is not the
  current head.
\<close>

definition append_frame ::
  "int \<Rightarrow> string \<Rightarrow> Changes \<Rightarrow> FrameStore \<Rightarrow> StoreError + FrameStore \<times> ProtocolFrame" where
  "append_frame basedOn scopeKey ch store =
     (if \<not> isCurrent basedOn store then Inl STALE_SEQUENCE
      else
        let f = \<lparr>sequence = headSequence store + 1, url = scopeKey, changes = ch\<rparr>
        in Inr (store\<lparr>headSequence := headSequence store + 1,
                       history := history store @ [f]\<rparr>, f))"

subsection \<open>Diff Resolver\<close>

text \<open>
  Modelled from the spec: what the Diff Resolver (section 4.2) is given for a scope key,
  namely the freshly observed state, the selector of the change, whether the caller asks
  for a full refresh, and the failure the executor reported, if any.
\<close>

record Observation =
  obs_selector :: string
  obs_content :: string
  full_refresh :: bool
  executor_failure :: "(ErrorCode \<times> string) option"

text \<open>
  Modelled from the spec: the Diff Resolver's choice of encoding. A failure is always an
  \<open>error\<close> frame with the current state; with no prior \<open>full_page\<close> frame for the scope
  key, or on a requested refresh, the frame is \<open>full_page\<close>; otherwise it is a \<open>diff\<close>
  whose \<open>baseFrame\<close> is the result of \<open>latestFullFrame\<close>.
\<close>

definition encodeObservation :: "string \<Rightarrow> Observation \<Rightarrow> FrameStore \<Rightarrow> Changes" where
  "encodeObservation scopeKey ob store =
     (case executor_failure ob of
        Some (code, msg) \<Rightarrow> Changes.error code msg (obs_content ob)
      | None \<Rightarrow>
          (case latestFullFrame scopeKey store of
             None \<Rightarrow> full_page (obs_content ob)
           | Some base \<Rightarrow>
               if full_refresh ob then full_page (obs_content ob)
               else Changes.diff (obs_selector ob) (obs_content ob)
                      (ProtocolFrame.sequence base)))"

text \<open>
  Modelled from the spec: producing a frame is the Diff Resolver followed by the Frame
  Store's append; a run of the store takes the requests one after the other, and a
  request that fails leaves the store as it was.
\<close>

definition produceFrame ::
  "int \<Rightarrow> string \<Rightarrow> Observation \<Rightarrow> FrameStore \<Rightarrow> StoreError + FrameStore \<times> ProtocolFrame" where
  "produceFrame basedOn scopeKey ob store =
     append_frame basedOn scopeKey (encodeObservation scopeKey ob store) store"

fun produceAll :: "(int \<times> string \<times> Observation) list \<Rightarrow> FrameStore \<Rightarrow> FrameStore" where
  "produceAll [] store = store"
| "produceAll ((basedOn, scopeKey, ob) # rest) store =
     (case produceFrame basedOn scopeKey ob store of
        Inl e \<Rightarrow> produceAll rest store
      | Inr (store', f) \<Rightarrow> produceAll rest store')"

text \<open>The requests that produce the document's example from an empty store.\<close>

definition exampleObservations :: "(int \<times> string \<times> Observation) list" where
  "exampleObservations =
     [(0, ''/search'', \<lparr>obs_selector = '''', obs_content = ''<search page>'',
                         full_refresh = False, executor_failure = None\<rparr>),
      (1, ''/products'', \<lparr>obs_selector = '''', obs_content = ''<product page>'',
                         full_refresh = False, executor_failure = None\<rparr>),
      (2, ''/products'', \<lparr>obs_selector = ''#menu-1'', obs_content = ''<expanded menu>'',
                         full_refresh = False, executor_failure = None\<rparr>),
      (3, ''/products'', \<lparr>obs_selector = ''#reviews'', obs_content = ''<new review>'',
                         full_refresh = False, executor_failure = None\<rparr>),
      (4, ''/cart'', \<lparr>obs_selector = '''', obs_content = ''<cart page>'',
                         full_refresh = False, executor_failure = None\<rparr>)]"

text \<open>
  The documented rule for a diff frame \<open>f\<close> with base \<open>b\<close> in a history: \<open>b\<close> is the
  sequence of a frame of the history that is a full page, has the url of \<open>f\<close> and comes
  strictly before \<open>f\<close>, and no full page of that url before \<open>f\<close> is more recent.
\<close>

definition base_resolves :: "ProtocolFrame list \<Rightarrow> ProtocolFrame \<Rightarrow> int \<Rightarrow> bool" where
  "base_resolves hist f b \<longleftrightarrow>
     (\<exists>g \<in> set hist. ProtocolFrame.sequence g = b \<and> url g = url f \<and> isFullPage (changes g)
        \<and> b < ProtocolFrame.sequence f
        \<and> (\<forall>g' \<in> set hist. url g' = url f \<and> isFullPage (changes g')
              \<and> ProtocolFrame.sequence g' < ProtocolFrame.sequence f
             \<longrightarrow> ProtocolFrame.sequence g' \<le> b))"

definition store_ok :: "FrameStore \<Rightarrow> bool" where
  "store_ok store \<longleftrightarrow>
     sorted_wrt (<) (map ProtocolFrame.sequence (history store))
     \<and> (\<forall>f \<in> set (history store). ProtocolFrame.sequence f \<le> headSequence store)
     \<and> (\<forall>f \<in> set (history store). \<forall>sel c b.
           changes f = Changes.diff sel c b \<longrightarrow> base_resolves (history store) f b)"

section \<open>docs/SYNC.md: session synchronisation\<close>

text \<open>
  Modelled from the spec: the Session Sync Manager (section 4.5); the repository
  documents the acknowledgment scheme and the recovery strategies and has no code for
  them. A session holds its identifier, the last sequence sent, the highest sequence
  acknowledged and the local log of the sequence numbers sent, oldest first.
\<close>

record SessionSyncState =
  sessionId :: string
  lastSent :: int
  lastAck :: int
  eventLog :: "int list"

text \<open>Modelled from the spec: a new session starts a fresh sequence space, whose first event is 1.\<close>

definition newSession :: "string \<Rightarrow> SessionSyncState" where
  "newSession sid = \<lparr>sessionId = sid, lastSent = 0, lastAck = 0, eventLog = []\<rparr>"

text \<open>Modelled from the spec: \<open>recordSent(sequence)\<close>, the sender's bookkeeping.\<close>

definition recordSent :: "int \<Rightarrow> SessionSyncState \<Rightarrow> SessionSyncState" where
  "recordSent s st = st\<lparr>lastSent := s, eventLog := eventLog st @ [s]\<rparr>"

text \<open>Modelled from the spec: the sender increments its own sequence on emit.\<close>

definition emitEvent :: "SessionSyncState \<Rightarrow> SessionSyncState" where
  "emitEvent st = recordSent (lastSent st + 1) st"

text \<open>Modelled from the spec: \<open>recordAck(sequence)\<close> sets \<open>lastAck\<close> to the maximum.\<close>

definition recordAck :: "int \<Rightarrow> SessionSyncState \<Rightarrow> SessionSyncState" where
  "recordAck s st = st\<lparr>lastAck := max (lastAck st) s\<rparr>"

text \<open>Modelled from the spec: \<open>gap()\<close> is \<open>lastSent - lastAck\<close>.\<close>

definition gap :: "SessionSyncState \<Rightarrow> int" where
  "gap st = lastSent st - lastAck st"

text \<open>
  Modelled from the spec: the missed events are those of the local log that are not
  acknowledged, in their original order and under their original numbers.
\<close>

definition missedEvents :: "SessionSyncState \<Rightarrow> int list" where
  "missedEvents st = filter (\<lambda>s. lastAck st < s) (eventLog st)"

datatype Recovery = resend "int list" | snapshot | reset

text \<open>
  Modelled from the spec: the recovery policy, session change first, then the size of
  the gap against \<open>smallGapThreshold\<close>.
\<close>

definition selectRecovery :: "bool \<Rightarrow> int \<Rightarrow> SessionSyncState \<Rightarrow> Recovery" where
  "selectRecovery sessionChanged smallGapThreshold st =
     (if sessionChanged then reset
      else if gap st \<le> smallGapThreshold then resend (missedEvents st)
      else snapshot)"

text \<open>
  The condition docs/SYNC.md gives for detecting a synchronisation issue:
  \<open>model.lastAck < client.lastSent - MAX_UNACKED_EVENTS\<close>.
\<close>

definition syncIssue :: "int \<Rightarrow> SessionSyncState \<Rightarrow> bool" where
  "syncIssue MAX_UNACKED_EVENTS st \<longleftrightarrow> lastAck st < lastSent st - MAX_UNACKED_EVENTS"

text \<open>
  Modelled from the spec: the life of a session, as the events emitted and the
  acknowledgments received, in the order they happen.
\<close>

datatype SessionEvent = Emit | Ack int

fun sessionStep :: "SessionSyncState \<Rightarrow> SessionEvent \<Rightarrow> SessionSyncState" where
  "sessionStep st Emit = emitEvent st"
| "sessionStep st (Ack s) = recordAck s st"

definition runSession :: "SessionEvent list \<Rightarrow> SessionSyncState \<Rightarrow> SessionSyncState" where
  "runSession evs st = foldl sessionStep st evs"

section \<open>Properties of the integer stream\<close>

lemma bitLength_le: "n < 2 ^ k \<Longrightarrow> bitLength n \<le> k"
proof (induction k arbitrary: n)
  case 0
  then show ?case by (simp add: bitLength.simps)
next
  case (Suc k)
  show ?case
  proof (cases "n \<le> 0")
    case True
    then show ?thesis by (simp add: bitLength.simps)
  next
    case False
    from Suc.prems have "n div 2 < 2 ^ k" by simp
    from Suc.IH [OF this] False show ?thesis
      by (subst bitLength.simps) simp
  qed
qed

lemma bitLength_pow53: "bitLength 9007199254740992 = 54"
  by code_simp

text \<open>Integers up to 2^53 = 9007199254740992 in magnitude are doubles, and so are their sums.\<close>

lemma roundToDouble_exact:
  assumes "\<bar>x\<bar> \<le> 9007199254740992"
  shows "roundToDouble x = x"
proof (cases "\<bar>x\<bar> = 9007199254740992")
  case True
  then have "roundToDouble x = sgn x * 9007199254740992"
    by (simp add: roundToDouble_def Let_def bitLength_pow53)
  with True show ?thesis by (simp add: abs_if sgn_if split: if_splits)
next
  case False
  with assms have "\<bar>x\<bar> < 2 ^ 53" by simp
  then have "bitLength \<bar>x\<bar> - 53 = 0"
    using bitLength_le [of "\<bar>x\<bar>" 53] by simp
  then have "roundToDouble x = sgn x * \<bar>x\<bar>"
    by (simp add: roundToDouble_def Let_def)
  then show ?thesis by (simp add: abs_if sgn_if)
qed

lemma js_add_exact: "\<bar>x + y\<bar> \<le> 9007199254740992 \<Longrightarrow> js_add x y = x + y"
  by (simp add: js_add_def roundToDouble_exact)

lemma toString_5: "toString 5 = ''5''"
  by code_simp

lemma toString_8: "toString 8 = ''8''"
  by code_simp






text \<open>
  C2. In a state with current sequence \<open>s\<close>, \<open>incrementValue\<close> called with a
  \<open>basedOnSequence\<close> other than \<open>s\<close> is rejected with the stale-sequence error, which the
  code raises as \<open>Error('Invalid sequence number')\<close>, and the state after the call is the
  state before it: value and sequence are unchanged.
\<close>

theorem incrementValue_stale:
  assumes "currentSequence st = s" and "basedOnSequence i \<noteq> Some s"
  shows "execute incrementValue (Some i) st = (st, Inl (Error ''Invalid sequence number''))"
  using assms by (simp add: incrementValue_def incrementValue_execute_def)

theorem incrementValue_stale_witness:
  "execute incrementValue (Some \<lparr>basedOnSequence = Some 1, amount = 1\<rparr>)
       \<lparr>currentValue = 5, currentSequence = 2\<rparr>
     = (\<lparr>currentValue = 5, currentSequence = 2\<rparr>, Inl (Error ''Invalid sequence number''))"
  using incrementValue_stale [of "\<lparr>currentValue = 5, currentSequence = 2\<rparr>" 2
      "\<lparr>basedOnSequence = Some 1, amount = 1\<rparr>"]
  by simp

text \<open>
  C9. In a state with current sequence \<open>s\<close>, the query \<open>getCurrentValue\<close> called with a
  \<open>basedOnSequence\<close> \<open>b \<noteq> s\<close> is rejected with \<open>Error('Invalid sequence number')\<close> and
  returns no frame; the state is untouched, and the outcome is the one \<open>incrementValue\<close>
  gives for the same stale input.
\<close>

theorem getCurrentValue_stale:
  assumes "currentSequence st = s" and "b \<noteq> s"
  shows "execute getCurrentValue (Some \<lparr>basedOnSequence = Some b, \<dots> = p\<rparr>) st
           = (st, Inl (Error ''Invalid sequence number''))
       \<and> execute incrementValue (Some \<lparr>basedOnSequence = Some b, amount = a, \<dots> = q\<rparr>) st
           = (st, Inl (Error ''Invalid sequence number''))"
  using assms
  by (simp add: getCurrentValue_def getCurrentValue_execute_def
      incrementValue_def incrementValue_execute_def)

theorem getCurrentValue_stale_witness:
  "execute getCurrentValue (Some \<lparr>basedOnSequence = Some 1\<rparr>) \<lparr>currentValue = 5, currentSequence = 2\<rparr>
     = (\<lparr>currentValue = 5, currentSequence = 2\<rparr>, Inl (Error ''Invalid sequence number''))
   \<and> execute incrementValue (Some \<lparr>basedOnSequence = Some 1, amount = 7\<rparr>)
         \<lparr>currentValue = 5, currentSequence = 2\<rparr>
     = (\<lparr>currentValue = 5, currentSequence = 2\<rparr>, Inl (Error ''Invalid sequence number''))"
  using getCurrentValue_stale [of "\<lparr>currentValue = 5, currentSequence = 2\<rparr>" 2 1 "()" 7 "()"]
  by simp

section \<open>Properties of parallel\<close>

lemma every_first_sequence:
  "list_all (\<lambda>s. s = first_sequence ss) ss \<longleftrightarrow> (\<forall>a \<in> set ss. \<forall>b \<in> set ss. a = b)"
proof (cases ss)
  case Nil
  then show ?thesis by simp
next
  case (Cons x xs)
  have "list_all (\<lambda>s. s = x) (x # xs) \<longleftrightarrow> (\<forall>a \<in> set (x # xs). \<forall>b \<in> set (x # xs). a = b)"
    unfolding list_all_iff by (metis list.set_intros(1))
  with Cons show ?thesis by (simp add: first_sequence_def)
qed

lemma map_execute_length: "map_execute tools inputs i st = (st', ps) \<Longrightarrow> length ps = length tools"
  by (induction tools arbitrary: i st st' ps) (auto simp: Let_def split: prod.splits)

lemma Promise_all_Inr:
  "Promise_all ps = Inr vs \<longleftrightarrow> ps = map Inr vs"
proof (induction ps arbitrary: vs rule: Promise_all.induct)
  case 1
  then show ?case by auto
next
  case (2 e ps)
  then show ?case by auto
next
  case (3 v ps)
  show ?case
  proof (cases "Promise_all ps")
    case (Inl e)
    with 3 have "\<And>ws. ps \<noteq> map Inr ws" by simp
    with Inl show ?thesis by (cases vs) auto
  next
    case (Inr ws)
    with 3 have "ps = map Inr ws" by blast
    with Inr show ?thesis by (cases vs) (auto simp: inj_map_eq_map)
  qed
qed

lemma map_execute_getCurrentValue:
  assumes "\<forall>x \<in> set inputs. basedOnSequence x = Some (currentSequence st)"
    and "i + n \<le> length inputs"
  shows "map_execute (replicate n getCurrentValue) inputs i st
       = (st, replicate n (Inr \<lparr>Frame.sequence = currentSequence st,
                         content = ''Value is '' @ toString (currentValue st),
                         type = full,
                         baseSequence = None,
                         value = currentValue st\<rparr>))"
  using assms
proof (induction n arbitrary: i)
  case 0
  then show ?case by simp
next
  case (Suc n)
  then have "i < length inputs" by simp
  with Suc.prems(1) have "basedOnSequence (inputs ! i) = Some (currentSequence st)" by simp
  with \<open>i < length inputs\<close> have
    "execute getCurrentValue (input_at inputs i) st = (st, Inr \<lparr>Frame.sequence = currentSequence st,
                         content = ''Value is '' @ toString (currentValue st),
                         type = full,
                         baseSequence = None,
                         value = currentValue st\<rparr>)"
    by (simp add: getCurrentValue_def getCurrentValue_execute_def input_at_def)
  moreover have "map_execute (replicate n getCurrentValue) inputs (Suc i) st = (st, replicate n (Inr \<lparr>Frame.sequence = currentSequence st,
                         content = ''Value is '' @ toString (currentValue st),
                         type = full,
                         baseSequence = None,
                         value = currentValue st\<rparr>))"
    using Suc.IH [of "Suc i"] Suc.prems by simp
  ultimately show ?case by simp
qed


lemma parallel_accepted:
  assumes "list_all (\<lambda>t. ToolDefinition.type t = query) tools"
    and "list_all (\<lambda>s. s = first_sequence (map basedOnSequence inputs)) (map basedOnSequence inputs)"
  shows "parallel tools inputs st
           = (fst (map_execute tools inputs 0 st), Promise_all (snd (map_execute tools inputs 0 st)))"
  using assms by (simp add: parallel_def Let_def split: prod.splits)

lemma same_sequence_every:
  assumes "\<forall>a \<in> set inputs. \<forall>b \<in> set inputs. basedOnSequence a = basedOnSequence b"
  shows "list_all (\<lambda>s. s = first_sequence (map basedOnSequence inputs)) (map basedOnSequence inputs)"
  unfolding every_first_sequence
proof (intro ballI)
  fix x y
  assume "x \<in> set (map basedOnSequence inputs)" and "y \<in> set (map basedOnSequence inputs)"
  then obtain a b where "a \<in> set inputs" "x = basedOnSequence a" "b \<in> set inputs" "y = basedOnSequence b"
    by (metis (no_types) imageE list.set_map)
  with assms show "x = y" by blast
qed

lemma map_execute_chainI:
  "map_execute tools inputs k st = (st', ps) \<Longrightarrow>
     \<exists>sts. length sts = Suc (length tools) \<and> sts ! 0 = st \<and> sts ! length tools = st'
        \<and> length ps = length tools
        \<and> (\<forall>i < length tools.
              execute (tools ! i) (input_at inputs (k + i)) (sts ! i) = (sts ! Suc i, ps ! i))"
proof (induction tools arbitrary: k st ps)
  case Nil
  then have "st' = st" and "ps = []" by simp_all
  then show ?case by (intro exI [of _ "[st]"]) simp
next
  case (Cons tool tools)
  obtain st1 p where e: "execute tool (input_at inputs k) st = (st1, p)"
    by (cases "execute tool (input_at inputs k) st")
  obtain st2 qs where m: "map_execute tools inputs (Suc k) st1 = (st2, qs)"
    by (cases "map_execute tools inputs (Suc k) st1")
  from Cons.prems e m have ps: "ps = p # qs" and st2: "st2 = st'" by simp_all
  from Cons.IH [OF m [unfolded st2]] obtain sts where
    l: "length sts = Suc (length tools)" and z: "sts ! 0 = st1" and n: "sts ! length tools = st'"
    and lq: "length qs = length tools"
    and c: "\<forall>i < length tools.
            execute (tools ! i) (input_at inputs (Suc k + i)) (sts ! i) = (sts ! Suc i, qs ! i)"
    by blast
  have "execute ((tool # tools) ! i) (input_at inputs (k + i)) ((st # sts) ! i)
              = ((st # sts) ! Suc i, ps ! i)" if "i < length (tool # tools)" for i
  proof (cases i)
    case 0
    with e z ps show ?thesis by simp
  next
    case (Suc j)
    with that have "j < length tools" by simp
    with c Suc ps show ?thesis by simp
  qed
  with l n lq ps show ?case
    by (intro exI [of _ "st # sts"]) simp
qed

lemma map_execute_chainD:
  "length sts = Suc (length tools) \<Longrightarrow> length ps = length tools \<Longrightarrow>
   \<forall>i < length tools.
      execute (tools ! i) (input_at inputs (k + i)) (sts ! i) = (sts ! Suc i, ps ! i) \<Longrightarrow>
   map_execute tools inputs k (sts ! 0) = (sts ! length tools, ps)"
proof (induction tools arbitrary: k sts ps)
  case Nil
  then show ?case by simp
next
  case (Cons tool tools)
  from Cons.prems(1) obtain s0 rest where sts: "sts = s0 # rest" by (cases sts) auto
  from Cons.prems(2) obtain p0 qs where ps: "ps = p0 # qs" by (cases ps) auto
  from Cons.prems(3) [rule_format, of 0] sts ps
  have e: "execute tool (input_at inputs k) s0 = (rest ! 0, p0)" by simp
  have c: "\<forall>i < length tools.
            execute (tools ! i) (input_at inputs (Suc k + i)) (rest ! i) = (rest ! Suc i, qs ! i)"
  proof (intro allI impI)
    fix i assume "i < length tools"
    then have "Suc i < length (tool # tools)" by simp
    from Cons.prems(3) [rule_format, OF this] sts ps
    show "execute (tools ! i) (input_at inputs (Suc k + i)) (rest ! i) = (rest ! Suc i, qs ! i)"
      by simp
  qed
  from Cons.prems(1,2) sts ps have "length rest = Suc (length tools)" "length qs = length tools"
    by simp_all
  from Cons.IH [OF this c] have "map_execute tools inputs (Suc k) (rest ! 0) = (rest ! length tools, qs)" .
  with e sts ps show ?case by simp
qed

text \<open>
  C3. In a state with current sequence \<open>s\<close>, the query \<open>getCurrentValue\<close> called with
  \<open>basedOnSequence = s\<close>, alone or as \<open>N\<close> queries of one \<open>parallel\<close> batch whose inputs
  all carry \<open>basedOnSequence = s\<close>, leaves the current sequence and the current value as
  they were, and every query returns the frame with sequence \<open>s\<close> and the current value.
\<close>

theorem getCurrentValue_queries:
  assumes "currentSequence st = s" and "currentValue st = v"
    and "basedOnSequence i = Some s"
    and "length inputs = N" and "\<forall>x \<in> set inputs. basedOnSequence x = Some s"
  shows "execute getCurrentValue (Some i) st
           = (st, Inr \<lparr>Frame.sequence = s, content = ''Value is '' @ toString v, type = full,
                       baseSequence = None, value = v\<rparr>)
       \<and> parallel (replicate N getCurrentValue) inputs st
           = (st, Inr (replicate N \<lparr>Frame.sequence = s, content = ''Value is '' @ toString v, type = full,
                                    baseSequence = None, value = v\<rparr>))"
proof
  from assms(1-3) show "execute getCurrentValue (Some i) st
           = (st, Inr \<lparr>Frame.sequence = s, content = ''Value is '' @ toString v, type = full,
                       baseSequence = None, value = v\<rparr>)"
    by (simp add: getCurrentValue_def getCurrentValue_execute_def)
  have q: "list_all (\<lambda>t. ToolDefinition.type t = query) (replicate N getCurrentValue)"
    by (simp add: list_all_iff getCurrentValue_def)
  have e: "list_all (\<lambda>s. s = first_sequence (map basedOnSequence inputs)) (map basedOnSequence inputs)"
    unfolding every_first_sequence using assms(5) by auto
  have "map_execute (replicate N getCurrentValue) inputs 0 st
       = (st, replicate N (Inr \<lparr>Frame.sequence = currentSequence st,
                         content = ''Value is '' @ toString (currentValue st),
                         type = full,
                         baseSequence = None,
                         value = currentValue st\<rparr>))"
    using assms(1,4,5) by (intro map_execute_getCurrentValue) simp_all
  then show "parallel (replicate N getCurrentValue) inputs st
           = (st, Inr (replicate N \<lparr>Frame.sequence = s, content = ''Value is '' @ toString v, type = full,
                                    baseSequence = None, value = v\<rparr>))"
    unfolding parallel_accepted [OF q e] using assms(1,2)
    by (simp add: Promise_all_Inr)
qed


theorem getCurrentValue_queries_witness:
  "execute getCurrentValue (Some \<lparr>basedOnSequence = Some 2\<rparr>) \<lparr>currentValue = 5, currentSequence = 2\<rparr>
     = (\<lparr>currentValue = 5, currentSequence = 2\<rparr>,
        Inr \<lparr>Frame.sequence = 2, content = ''Value is 5'', type = full, baseSequence = None, value = 5\<rparr>)
   \<and> parallel [getCurrentValue, getCurrentValue]
        [\<lparr>basedOnSequence = Some 2\<rparr>, \<lparr>basedOnSequence = Some 2\<rparr>]
        \<lparr>currentValue = 5, currentSequence = 2\<rparr>
     = (\<lparr>currentValue = 5, currentSequence = 2\<rparr>,
        Inr [\<lparr>Frame.sequence = 2, content = ''Value is 5'', type = full, baseSequence = None, value = 5\<rparr>,
             \<lparr>Frame.sequence = 2, content = ''Value is 5'', type = full, baseSequence = None, value = 5\<rparr>])"
  using getCurrentValue_queries [of "\<lparr>currentValue = 5, currentSequence = 2\<rparr>" 2 5
      "\<lparr>basedOnSequence = Some 2\<rparr>" "[\<lparr>basedOnSequence = Some 2\<rparr>, \<lparr>basedOnSequence = Some 2\<rparr>]" 2]
  by (simp add: toString_5 numeral_2_eq_2)

text \<open>
  C4. A batch of query tools whose inputs carry two different \<open>basedOnSequence\<close> values
  is rejected with the inconsistent-batch error, raised by the code as
  \<open>Error('All parallel tools must use the same sequence number')\<close>. The state returned is
  the state given, whatever the \<open>execute\<close> functions of the tools would do: none of them
  is called.
\<close>

theorem parallel_inconsistent:
  assumes "list_all (\<lambda>t. ToolDefinition.type t = query) tools"
    and "i < length inputs" and "j < length inputs"
    and "basedOnSequence (inputs ! i) \<noteq> basedOnSequence (inputs ! j)"
  shows "parallel tools inputs st
           = (st, Inl (Error ''All parallel tools must use the same sequence number''))"
proof -
  have "basedOnSequence (inputs ! i) \<in> set (map basedOnSequence inputs)"
    and "basedOnSequence (inputs ! j) \<in> set (map basedOnSequence inputs)"
    using assms(2,3) by simp_all
  with assms(4) have "\<not> list_all (\<lambda>s. s = first_sequence (map basedOnSequence inputs))
                        (map basedOnSequence inputs)"
    unfolding every_first_sequence by blast
  with assms(1) show ?thesis by (simp add: parallel_def Let_def)
qed

theorem parallel_inconsistent_witness:
  "parallel [getCurrentValue, getCurrentValue]
      [\<lparr>basedOnSequence = Some 1\<rparr>, \<lparr>basedOnSequence = Some 2\<rparr>] initialState
     = (initialState, Inl (Error ''All parallel tools must use the same sequence number''))"
  using parallel_inconsistent [of "[getCurrentValue, getCurrentValue]"
      0 "[\<lparr>basedOnSequence = Some 1\<rparr>, \<lparr>basedOnSequence = Some 2\<rparr>]" 1 initialState]
  by (simp add: getCurrentValue_def)

text \<open>
  C5. A batch that contains a tool of type \<open>mutation\<close> is rejected with the mixed-batch
  error, raised by the code as \<open>Error('parallel() can only be used with query tools')\<close>.
  The state returned is the state given, whatever the \<open>execute\<close> functions of the tools
  would do: none of them is called.
\<close>

theorem parallel_mixed:
  assumes "t \<in> set tools" and "ToolDefinition.type t = mutation"
  shows "parallel tools inputs st = (st, Inl (Error ''parallel() can only be used with query tools''))"
proof -
  from assms have "\<not> list_all (\<lambda>t. ToolDefinition.type t = query) tools"
    unfolding list_all_iff by (metis ToolType.distinct(1))
  then show ?thesis by (simp add: parallel_def)
qed

theorem parallel_mixed_witness:
  "parallel [getCurrentValue, incrementValue]
      [\<lparr>basedOnSequence = Some 1, amount = 5\<rparr>, \<lparr>basedOnSequence = Some 1, amount = 5\<rparr>] initialState
     = (initialState, Inl (Error ''parallel() can only be used with query tools''))"
  using parallel_mixed [of incrementValue "[getCurrentValue, incrementValue]"
      "[\<lparr>basedOnSequence = Some 1, amount = 5\<rparr>, \<lparr>basedOnSequence = Some 1, amount = 5\<rparr>]" initialState]
  by (simp add: incrementValue_def)

text \<open>
  C10. For a batch that passes both validations (every tool is a query, every input
  carries the same \<open>basedOnSequence\<close>), \<open>parallel\<close> returns a list \<open>vs\<close> exactly when the
  calls \<open>tools[i].execute(inputs[i])\<close>, made from left to right, each on the state the
  call before it left, all succeed. The list then has one element for each tool, and its
  \<open>i\<close>-th element is the value of the call of \<open>tools[i]\<close> on \<open>inputs[i]\<close> (on \<open>undefined\<close>
  where \<open>inputs\<close> is shorter than \<open>tools\<close>). The empty batch succeeds with the empty list.
\<close>

theorem parallel_positional:
  assumes "\<forall>t \<in> set tools. ToolDefinition.type t = query"
    and "\<forall>a \<in> set inputs. \<forall>b \<in> set inputs. basedOnSequence a = basedOnSequence b"
  shows "(parallel tools inputs st = (st', Inr vs) \<longleftrightarrow>
           (\<exists>sts. length sts = Suc (length tools) \<and> sts ! 0 = st \<and> sts ! length tools = st'
              \<and> length vs = length tools
              \<and> (\<forall>i < length tools.
                    execute (tools ! i) (if i < length inputs then Some (inputs ! i) else None) (sts ! i)
                      = (sts ! Suc i, Inr (vs ! i)))))
         \<and> parallel [] [] st = (st, Inr [])"
proof
  have q: "list_all (\<lambda>t. ToolDefinition.type t = query) tools"
    using assms(1) by (simp add: list_all_iff)
  have e: "list_all (\<lambda>s. s = first_sequence (map basedOnSequence inputs)) (map basedOnSequence inputs)"
    using assms(2) by (rule same_sequence_every)
  have p: "parallel tools inputs st = (st', Inr vs)
          \<longleftrightarrow> map_execute tools inputs 0 st = (st', map Inr vs)"
  proof -
    obtain s1 ps where m: "map_execute tools inputs 0 st = (s1, ps)"
      by (cases "map_execute tools inputs 0 st")
    have "Promise_all ps = Inr vs \<longleftrightarrow> ps = map Inr vs" by (rule Promise_all_Inr)
    with m show ?thesis
      unfolding parallel_accepted [OF q e] by simp
  qed
  show "parallel tools inputs st = (st', Inr vs) \<longleftrightarrow>
           (\<exists>sts. length sts = Suc (length tools) \<and> sts ! 0 = st \<and> sts ! length tools = st'
              \<and> length vs = length tools
              \<and> (\<forall>i < length tools.
                    execute (tools ! i) (if i < length inputs then Some (inputs ! i) else None) (sts ! i)
                      = (sts ! Suc i, Inr (vs ! i))))"
    (is "?L \<longleftrightarrow> ?R")
  proof
    assume ?L
    with p have "map_execute tools inputs 0 st = (st', map Inr vs)" by simp
    from map_execute_chainI [OF this] obtain sts where
      l: "length sts = Suc (length tools)" and z: "sts ! 0 = st"
      and n: "sts ! length tools = st'" and lv: "length (map Inr vs :: (js_error + 'c) list) = length tools"
      and c: "\<forall>i < length tools.
                execute (tools ! i) (input_at inputs (0 + i)) (sts ! i)
                  = (sts ! Suc i, map Inr vs ! i)"
      by blast
    have "\<forall>i < length tools.
                execute (tools ! i) (if i < length inputs then Some (inputs ! i) else None) (sts ! i)
                  = (sts ! Suc i, Inr (vs ! i))"
    proof (intro allI impI)
      fix i assume i: "i < length tools"
      with lv have "map Inr vs ! i = (Inr (vs ! i) :: js_error + 'c)" by simp
      with c [rule_format, OF i] show "execute (tools ! i) (if i < length inputs then Some (inputs ! i) else None) (sts ! i)
                  = (sts ! Suc i, Inr (vs ! i))"
        by (simp add: input_at_def)
    qed
    with l z n lv show ?R by (intro exI [of _ sts]) simp
  next
    assume ?R
    then obtain sts where l: "length sts = Suc (length tools)" and z: "sts ! 0 = st"
      and n: "sts ! length tools = st'" and lv: "length vs = length tools"
      and c: "\<forall>i < length tools.
                execute (tools ! i) (if i < length inputs then Some (inputs ! i) else None) (sts ! i)
                  = (sts ! Suc i, Inr (vs ! i))"
      by blast
    from lv have lm: "length (map Inr vs :: (js_error + 'c) list) = length tools" by simp
    have "\<forall>i < length tools.
      execute (tools ! i) (input_at inputs (0 + i)) (sts ! i) = (sts ! Suc i, map Inr vs ! i)"
    proof (intro allI impI)
      fix i assume i: "i < length tools"
      with lv have "map Inr vs ! i = (Inr (vs ! i) :: js_error + 'c)" by simp
      with c [rule_format, OF i]
      show "execute (tools ! i) (input_at inputs (0 + i)) (sts ! i) = (sts ! Suc i, map Inr vs ! i)"
        by (simp add: input_at_def)
    qed
    from map_execute_chainD [OF l lm this] z n p show ?L by simp
  qed
  show "parallel [] [] st = (st, Inr [])"
    by (simp add: parallel_def first_sequence_def)
qed

theorem parallel_positional_witness:
  "parallel [getCurrentValue, incrementValue\<lparr>ToolDefinition.type := query\<rparr>]
      [\<lparr>basedOnSequence = Some 2, amount = 100\<rparr>, \<lparr>basedOnSequence = Some 2, amount = 3\<rparr>]
      \<lparr>currentValue = 5, currentSequence = 2\<rparr>
     = (\<lparr>currentValue = 8, currentSequence = 3\<rparr>,
        Inr [\<lparr>Frame.sequence = 2, content = ''Value is 5'', type = full, baseSequence = None, value = 5\<rparr>,
             \<lparr>Frame.sequence = 3, content = ''Value is now 8'', type = full, baseSequence = None, value = 8\<rparr>])
   \<and> parallel ([] :: (Input, IntStreamState, IntFrame) ToolDefinition list) []
        \<lparr>currentValue = 5, currentSequence = 2\<rparr>
     = (\<lparr>currentValue = 5, currentSequence = 2\<rparr>, Inr [])"
proof -
  let ?tools = "[getCurrentValue, incrementValue\<lparr>ToolDefinition.type := query\<rparr>]
                  :: (IncrementInput, IntStreamState, IntFrame) ToolDefinition list"
  let ?inputs = "[\<lparr>basedOnSequence = Some 2, amount = 100\<rparr>, \<lparr>basedOnSequence = Some 2, amount = 3\<rparr>]"
  let ?st = "\<lparr>currentValue = 5, currentSequence = 2\<rparr>"
  let ?st' = "\<lparr>currentValue = 8, currentSequence = 3\<rparr>"
  let ?f1 = "\<lparr>Frame.sequence = 2, content = ''Value is 5'', type = full, baseSequence = None, value = 5\<rparr>"
  let ?f2 = "\<lparr>Frame.sequence = 3, content = ''Value is now 8'', type = full, baseSequence = None, value = 8\<rparr>"
  have q: "\<forall>t \<in> set ?tools. ToolDefinition.type t = query"
    by (simp add: getCurrentValue_def)
  have s: "\<forall>a \<in> set ?inputs. \<forall>b \<in> set ?inputs. basedOnSequence a = basedOnSequence b"
    by simp
  have e1: "execute getCurrentValue (Some \<lparr>basedOnSequence = Some 2, amount = 100\<rparr>) ?st = (?st, Inr ?f1)"
    by (simp add: getCurrentValue_def getCurrentValue_execute_def toString_5)
  have e2: "execute (incrementValue\<lparr>ToolDefinition.type := query\<rparr>)
              (Some \<lparr>basedOnSequence = Some 2, amount = 3\<rparr>) ?st = (?st', Inr ?f2)"
    by (simp add: incrementValue_def incrementValue_execute_def Let_def js_add_exact toString_8)
  have "\<forall>i < length ?tools.
          execute (?tools ! i) (if i < length ?inputs then Some (?inputs ! i) else None) ([?st, ?st, ?st'] ! i)
            = ([?st, ?st, ?st'] ! Suc i, Inr ([?f1, ?f2] ! i))"
    using e1 e2 by (simp add: less_Suc_eq all_conj_distrib)
  then have c: "\<exists>sts. length sts = Suc (length ?tools) \<and> sts ! 0 = ?st \<and> sts ! length ?tools = ?st'
              \<and> length [?f1, ?f2] = length ?tools
              \<and> (\<forall>i < length ?tools.
                    execute (?tools ! i) (if i < length ?inputs then Some (?inputs ! i) else None) (sts ! i)
                      = (sts ! Suc i, Inr ([?f1, ?f2] ! i)))"
    by (intro exI [of _ "[?st, ?st, ?st']"] conjI) simp_all
  note t = parallel_positional [OF q s, of ?st ?st' "[?f1, ?f2]"]
  from t [THEN conjunct1] c have "parallel ?tools ?inputs ?st = (?st', Inr [?f1, ?f2])"
    by (rule iffD2)
  moreover have "parallel ([] :: (Input, IntStreamState, IntFrame) ToolDefinition list) [] ?st = (?st, Inr [])"
    by (rule t [THEN conjunct2])
  ultimately show ?thesis by (rule conjI)
qed

section \<open>Properties of the stream controller\<close>

text \<open>
  C6. A transition from one execution state to another is accepted if and only if it is
  in the table: initial to streaming or error; streaming to paused, complete, error or
  cancelled; paused to streaming, cancelled or error. The terminal states cancelled,
  error and complete have no outgoing transition.
\<close>

theorem transition_table:
  "(isValidTransition from to \<longleftrightarrow> (from, to) \<in> allowed_transitions)
   \<and> (accepted from to \<longleftrightarrow> (from, to) \<in> allowed_transitions)
   \<and> \<not> isValidTransition cancelled to
   \<and> \<not> isValidTransition StreamState.error to
   \<and> \<not> isValidTransition complete to"
proof -
  have v: "isValidTransition from to \<longleftrightarrow> (from, to) \<in> allowed_transitions"
    by (cases "from"; cases to) (simp_all add: isValidTransition_def allowed_transitions_def)
  have "accepted from to \<longleftrightarrow> isValidTransition from to"
    by (simp add: accepted_def transition_def Let_def)
  with v show ?thesis
    by (simp add: isValidTransition_def)
qed


section \<open>Properties of the frame store and the diff resolver\<close>

lemma find_rev_latest:
  assumes "sorted_wrt (<) (map ProtocolFrame.sequence hist)"
    and "List.find P (rev hist) = Some g"
  shows "g \<in> set hist \<and> P g
       \<and> (\<forall>g' \<in> set hist. P g' \<longrightarrow> ProtocolFrame.sequence g' \<le> ProtocolFrame.sequence g)"
  using assms
proof (induction hist rule: rev_induct)
  case Nil
  then show ?case by simp
next
  case (snoc x xs)
  from snoc.prems(1) have srt: "sorted_wrt (<) (map ProtocolFrame.sequence xs)"
    and below: "\<forall>y \<in> set xs. ProtocolFrame.sequence y < ProtocolFrame.sequence x"
    by (auto simp: sorted_wrt_append)
  show ?case
  proof (cases "P x")
    case True
    with snoc.prems(2) have "g = x" by simp
    with True below show ?thesis by auto
  next
    case False
    with snoc.prems(2) have "List.find P (rev xs) = Some g" by simp
    from snoc.IH [OF srt this] False show ?thesis by auto
  qed
qed

lemma base_resolves_snoc:
  assumes "base_resolves hist f b" and "ProtocolFrame.sequence f \<le> ProtocolFrame.sequence n"
  shows "base_resolves (hist @ [n]) f b"
  using assms unfolding base_resolves_def by auto

lemma append_ok:
  assumes ok: "store_ok store"
    and ap: "append_frame basedOn scopeKey (encodeObservation scopeKey ob store) store = Inr (store', n)"
  shows "store_ok store'"
proof -
  let ?h = "history store"
  from ap have cur: "isCurrent basedOn store"
    by (auto simp: append_frame_def split: if_splits)
  with ap have n: "n = \<lparr>sequence = headSequence store + 1, url = scopeKey,
                        changes = encodeObservation scopeKey ob store\<rparr>"
    and s': "store' = store\<lparr>headSequence := headSequence store + 1, history := ?h @ [n]\<rparr>"
    by (auto simp: append_frame_def Let_def)
  from ok have srt: "sorted_wrt (<) (map ProtocolFrame.sequence ?h)"
    and le: "\<forall>f \<in> set ?h. ProtocolFrame.sequence f \<le> headSequence store"
    and old: "\<forall>f \<in> set ?h. \<forall>sel c b. changes f = Changes.diff sel c b \<longrightarrow> base_resolves ?h f b"
    by (auto simp: store_ok_def)
  from le n have lt: "\<forall>f \<in> set ?h. ProtocolFrame.sequence f < ProtocolFrame.sequence n" by auto
  have 1: "sorted_wrt (<) (map ProtocolFrame.sequence (?h @ [n]))"
    using srt lt by (simp add: sorted_wrt_append)
  have 2: "\<forall>f \<in> set (?h @ [n]). ProtocolFrame.sequence f \<le> headSequence store + 1"
    using le n by auto
  have 3: "base_resolves (?h @ [n]) f b"
    if f: "f \<in> set (?h @ [n])" and d: "changes f = Changes.diff sel c b" for f sel c b
  proof (cases "f \<in> set ?h")
    case True
    with old d have "base_resolves ?h f b" by blast
    moreover from lt True have "ProtocolFrame.sequence f \<le> ProtocolFrame.sequence n" by auto
    ultimately show ?thesis by (rule base_resolves_snoc)
  next
    case False
    with f have fn: "f = n" by simp
    with d n have enc: "encodeObservation scopeKey ob store = Changes.diff sel c b" by simp
    then obtain g where g: "latestFullFrame scopeKey store = Some g"
      and b: "b = ProtocolFrame.sequence g"
      by (auto simp: encodeObservation_def split: option.splits prod.splits if_splits)
    from find_rev_latest [OF srt g [unfolded latestFullFrame_def]]
    have gin: "g \<in> set ?h" and gp: "url g = scopeKey \<and> isFullPage (changes g)"
      and gmax: "\<forall>g' \<in> set ?h. url g' = scopeKey \<and> isFullPage (changes g')
                    \<longrightarrow> ProtocolFrame.sequence g' \<le> ProtocolFrame.sequence g"
      by auto
    have nfull: "\<not> isFullPage (changes n)" using enc n by simp
    show ?thesis
      unfolding base_resolves_def
    proof (intro bexI [of _ g] conjI ballI impI)
      show "ProtocolFrame.sequence g = b" using b by simp
      show "url g = url f" using gp fn n by simp
      show "isFullPage (changes g)" using gp by simp
      show "b < ProtocolFrame.sequence f" using b lt gin fn by auto
      show "g \<in> set (?h @ [n])" using gin by simp
      fix g' assume "g' \<in> set (?h @ [n])"
        and a: "url g' = url f \<and> isFullPage (changes g')
                \<and> ProtocolFrame.sequence g' < ProtocolFrame.sequence f"
      with nfull have "g' \<in> set ?h" by auto
      with gmax a fn n b show "ProtocolFrame.sequence g' \<le> b" by auto
    qed
  qed
  from 1 2 3 show ?thesis
    unfolding store_ok_def s' by simp
qed

lemma produceAll_ok: "store_ok store \<Longrightarrow> store_ok (produceAll obs store)"
proof (induction obs arbitrary: store)
  case Nil
  then show ?case by simp
next
  case (Cons x obs)
  obtain basedOn scopeKey ob where x: "x = (basedOn, scopeKey, ob)" by (cases x)
  show ?case
  proof (cases "produceFrame basedOn scopeKey ob store")
    case (Inl e)
    with x Cons show ?thesis by simp
  next
    case (Inr r)
    obtain store' n where r: "r = (store', n)" by (cases r)
    from Inr r have "store_ok store'"
      using append_ok [OF Cons.prems] by (simp add: produceFrame_def)
    with Cons.IH x Inr r show ?thesis by simp
  qed
qed

lemma emptyStore_ok: "store_ok (emptyStore h)"
  by (simp add: store_ok_def emptyStore_def)

lemma example_history:
  "history (produceAll exampleObservations (emptyStore 0)) = exampleSequence"
  by (simp add: exampleObservations_def exampleSequence_def emptyStore_def produceFrame_def
      append_frame_def isCurrent_def encodeObservation_def latestFullFrame_def Let_def)

text \<open>
  C7. In every history the frame store reaches from an empty store, the \<open>baseFrame\<close> of
  a diff frame is the sequence of a full page frame of the history with the same url
  and a strictly lower sequence, the most recent such frame; and an observation for a
  scope key that has no full page frame yet is encoded as a full page, never as a diff
  (as an error frame when the executor reports a failure).
\<close>

theorem diff_base_validity:
  "(f \<in> set (history (produceAll obs (emptyStore h))) \<and> changes f = Changes.diff sel c b
      \<longrightarrow> base_resolves (history (produceAll obs (emptyStore h))) f b)
   \<and> (latestFullFrame scopeKey store = None \<and> executor_failure ob = None
      \<longrightarrow> encodeObservation scopeKey ob store = full_page (obs_content ob))
   \<and> (latestFullFrame scopeKey store = None
      \<longrightarrow> encodeObservation scopeKey ob store \<noteq> Changes.diff sel' c' b')"
proof -
  have "store_ok (produceAll obs (emptyStore h))"
    by (rule produceAll_ok [OF emptyStore_ok])
  then show ?thesis
    by (auto simp: store_ok_def encodeObservation_def split: option.splits)
qed


theorem diff_base_validity_witness:
  "\<lparr>sequence = 4, url = ''/products'', changes = Changes.diff ''#reviews'' ''<new review>'' 2\<rparr>
      \<in> set (history (produceAll exampleObservations (emptyStore 0)))
   \<and> base_resolves (history (produceAll exampleObservations (emptyStore 0)))
        \<lparr>sequence = 4, url = ''/products'', changes = Changes.diff ''#reviews'' ''<new review>'' 2\<rparr> 2
   \<and> latestFullFrame ''/search'' (emptyStore 0) = None
   \<and> encodeObservation ''/search'' \<lparr>obs_selector = '''', obs_content = ''<search page>'',
                         full_refresh = False, executor_failure = None\<rparr> (emptyStore 0)
       = full_page ''<search page>''"
proof -
  let ?f = "\<lparr>sequence = 4, url = ''/products'',
             changes = Changes.diff ''#reviews'' ''<new review>'' 2\<rparr>"
  let ?ob = "\<lparr>obs_selector = '''', obs_content = ''<search page>'',
              full_refresh = False, executor_failure = None\<rparr>"
  have m: "?f \<in> set (history (produceAll exampleObservations (emptyStore 0)))"
    by (simp add: example_history exampleSequence_def)
  have l: "latestFullFrame ''/search'' (emptyStore 0) = None"
    by (simp add: latestFullFrame_def emptyStore_def)
  from diff_base_validity [of ?f exampleObservations 0 "''#reviews''" "''<new review>''" 2
      "''/search''" "emptyStore 0" ?ob] m l
  show ?thesis by simp
qed

section \<open>Properties of session recovery\<close>

lemma filter_upto_above:
  "0 \<le> a \<Longrightarrow> filter (\<lambda>s. a < s) [1..n] = [a + 1..n]"
proof (induction "nat n" arbitrary: n)
  case 0
  then have "[1..n] = []" "[a + 1..n] = []" by simp_all
  then show ?case by simp
next
  case (Suc k)
  then have n: "1 \<le> n" and k: "k = nat (n - 1)" by linarith+
  from n have u: "[1..n] = [1..n - 1] @ [n]" by (simp add: upto_rec2)
  have IH: "filter (\<lambda>s. a < s) [1..n - 1] = [a + 1..n - 1]"
    using Suc.hyps(1) [OF k Suc.prems] .
  show ?case
  proof (cases "a < n")
    case True
    then have "[a + 1..n] = [a + 1..n - 1] @ [n]" by (simp add: upto_rec2)
    with u IH True show ?thesis by simp
  next
    case False
    then have "[a + 1..n] = []" "[a + 1..n - 1] = []" by simp_all
    with u IH False show ?thesis by simp
  qed
qed

lemma runSession_log:
  "eventLog st = [1..lastSent st] \<Longrightarrow> 0 \<le> lastSent st \<Longrightarrow> 0 \<le> lastAck st \<Longrightarrow>
   eventLog (runSession evs st) = [1..lastSent (runSession evs st)]
   \<and> 0 \<le> lastSent (runSession evs st) \<and> 0 \<le> lastAck (runSession evs st)"
proof (induction evs arbitrary: st)
  case Nil
  then show ?case by (simp add: runSession_def)
next
  case (Cons ev evs)
  have "eventLog (sessionStep st ev) = [1..lastSent (sessionStep st ev)]
      \<and> 0 \<le> lastSent (sessionStep st ev) \<and> 0 \<le> lastAck (sessionStep st ev)"
    using Cons.prems
    by (cases ev) (simp_all add: emitEvent_def recordSent_def recordAck_def upto_rec2)
  with Cons.IH [of "sessionStep st ev"] show ?case
    by (simp add: runSession_def)
qed

text \<open>
  C8. In a session without session change the recovery chosen is \<open>resend\<close>, with the
  missed sequence numbers \<open>lastAck + 1\<close> to \<open>lastSent\<close> in their original order, when
  \<open>lastSent - lastAck\<close> is at most \<open>smallGapThreshold\<close>, and \<open>snapshot\<close> when it is larger;
  \<open>snapshot\<close> is chosen exactly when the condition of docs/SYNC.md for a synchronisation
  issue holds. With 50 events sent and threshold 20, an acknowledgment of 10 selects
  \<open>snapshot\<close> and one of 45 selects \<open>resend\<close> of 46 to 50.
\<close>

theorem recovery_selection:
  assumes "st = runSession evs (newSession sid)"
  shows "selectRecovery False smallGapThreshold st
           = (if lastSent st - lastAck st \<le> smallGapThreshold
              then resend [lastAck st + 1..lastSent st] else snapshot)
       \<and> (selectRecovery False smallGapThreshold st = snapshot \<longleftrightarrow> syncIssue smallGapThreshold st)"
proof -
  have "eventLog st = [1..lastSent st] \<and> 0 \<le> lastSent st \<and> 0 \<le> lastAck st"
    unfolding assms by (rule runSession_log) (simp_all add: newSession_def)
  then have "missedEvents st = [lastAck st + 1..lastSent st]"
    by (simp add: missedEvents_def filter_upto_above)
  then show ?thesis
    by (auto simp: selectRecovery_def gap_def syncIssue_def)
qed

theorem recovery_selection_witness:
  "selectRecovery False 20 (runSession (replicate 50 Emit @ [Ack 10]) (newSession ''abc123''))
     = snapshot
   \<and> selectRecovery False 20 (runSession (replicate 50 Emit @ [Ack 45]) (newSession ''abc123''))
     = resend [46, 47, 48, 49, 50]"
  using recovery_selection [OF refl, of 20 "replicate 50 Emit @ [Ack 10]" "''abc123''"]
    recovery_selection [OF refl, of 20 "replicate 50 Emit @ [Ack 45]" "''abc123''"]
  by code_simp


end
